theory Spec2Isabelle
  imports Complex_Main "HOL-Library.Word" "HOL-Library.Log_Nat"
begin

section \<open>Tensors along the time axis and Python slicing\<close>

text \<open>
  \<open>process_in_chunks\<close> only slices, blends and concatenates along dimension 2 (time) of a
  \<open>(B, C, T, H, W)\<close> tensor. A tensor is therefore modelled as the list of its time slabs;
  a slab (``frame'') is the flat list of the values at all batch, channel, row and column
  positions of one time index. Values are exact reals: the rounding of half and single
  precision is not modelled.
\<close>

type_synonym frame = "real list"
type_synonym tensor = "frame list"

datatype error = AssertionError | RuntimeError | ZeroDivisionError | ValueError

text \<open>
  Python's \<open>xs[a:b]\<close>: a negative bound counts from the end, every bound is clamped to
  \<open>[0, len]\<close>, a missing bound (\<open>None\<close>) is the respective end, and a slice whose lower
  bound is not below its upper bound is empty. Note that \<open>-0\<close> is \<open>0\<close>.
\<close>

definition slice_bound :: "nat \<Rightarrow> int \<Rightarrow> nat" where
  "slice_bound n i = (if i < 0 then nat (max (int n + i) 0) else min (nat i) n)"

definition py_slice :: "'a list \<Rightarrow> int option \<Rightarrow> int option \<Rightarrow> 'a list" where
  "py_slice xs a b =
     (let n = length xs;
          lo = (case a of None \<Rightarrow> 0 | Some i \<Rightarrow> slice_bound n i);
          hi = (case b of None \<Rightarrow> n | Some j \<Rightarrow> slice_bound n j)
      in take (hi - lo) (drop lo xs))"

section \<open>The chunked codec driver: \<open>process_in_chunks\<close>\<close>

text \<open>
  \<open>output_chunks[-1][:, :, -overlap_step:] * 1 / 4 + recon_chunk[:, :, :overlap_step] * 3 / 4\<close>:
  the two scalings are elementwise; the addition broadcasts along the time axis, so two
  operands of different time length are accepted only when one of them has length 1, and
  raise a \<open>RuntimeError\<close> otherwise.
\<close>

definition blend_frame :: "frame \<Rightarrow> frame \<Rightarrow> frame" where
  "blend_frame p c = map2 (\<lambda>a b. a * 1 / 4 + b * 3 / 4) p c"

definition blend :: "tensor \<Rightarrow> tensor \<Rightarrow> error + tensor" where
  "blend ps cs =
     (if length ps = length cs then Inr (map2 blend_frame ps cs)
      else if length ps = 1 then Inr (map (blend_frame (hd ps)) cs)
      else if length cs = 1 then Inr (map (\<lambda>p. blend_frame p (hd cs)) ps)
      else Inl RuntimeError)"

text \<open>
  The loop state: the cursor \<open>start\<close> and the list \<open>output_chunks\<close> of the source, and two
  logs that the source does not keep: \<open>calls\<close>, the chunks handed to the codec, in order,
  and \<open>seams\<close>, one entry per blend: the position of the concatenated buffer at which
  the blended frames were written, and the blended frames.
\<close>

record state =
  start :: int
  output_chunks :: "tensor list"
  calls :: "tensor list"
  seams :: "(nat \<times> tensor) list"

text \<open>
  One iteration of the \<open>while\<close> loop. \<open>codec\<close> is the whole of
  \<open>model.decode(model.encode(chunk.half().to(device)).sample().half()).cpu().float()\<close>.
  An exception leaves the state as it was when it was raised (the codec has been called).
\<close>

definition chunk_step ::
  "(tensor \<Rightarrow> tensor) \<Rightarrow> tensor \<Rightarrow> int \<Rightarrow> int \<Rightarrow> state \<Rightarrow> (error \<times> state) + state" where
  "chunk_step codec video_data chunk_size overlap st =
     (let num_frames = int (length video_data);
          end0 = min (start st + chunk_size) num_frames;
          end = (if start st + chunk_size + overlap < num_frames then end0 + overlap else end0);
          chunk = py_slice video_data (Some (start st)) (Some end);
          recon_chunk = codec chunk;
          st1 = st\<lparr>calls := calls st @ [chunk]\<rparr>
      in if output_chunks st \<noteq> [] then
           (let prev = last (output_chunks st);
                overlap_step = min overlap (int (length recon_chunk))
            in case blend (py_slice prev (Some (- overlap_step)) None)
                          (py_slice recon_chunk None (Some overlap_step)) of
                 Inl e \<Rightarrow> Inl (e, st1)
               | Inr overlap_tensor \<Rightarrow>
                   (let kept = py_slice prev None (Some (- overlap));
                        lo = length (concat (butlast (output_chunks st))) + length kept;
                        chunks = butlast (output_chunks st) @ [kept @ overlap_tensor];
                        new = (if end < num_frames then py_slice recon_chunk (Some overlap) None
                               else recon_chunk)
                    in Inr (st1\<lparr>output_chunks := chunks @ [new],
                                 seams := seams st @ [(lo, overlap_tensor)],
                                 start := start st + chunk_size\<rparr>)))
         else Inr (st1\<lparr>output_chunks := output_chunks st @ [recon_chunk],
                       start := start st + chunk_size\<rparr>))"

text \<open>
  \<open>while start < num_frames\<close>. With \<open>chunk_size \<le> 0\<close> the cursor never reaches
  \<open>num_frames\<close> and the source does not return: the loop is a partial function, and not
  returning is \<open>None\<close>.
\<close>

partial_function (option) chunk_loop ::
  "(tensor \<Rightarrow> tensor) \<Rightarrow> tensor \<Rightarrow> int \<Rightarrow> int \<Rightarrow> state \<Rightarrow> ((error \<times> state) + state) option" where
  "chunk_loop codec video_data chunk_size overlap st =
     (if start st < int (length video_data) then
        (case chunk_step codec video_data chunk_size overlap st of
           Inl e \<Rightarrow> Some (Inl e)
         | Inr st' \<Rightarrow> chunk_loop codec video_data chunk_size overlap st')
      else Some (Inr st))"

declare chunk_loop.simps [code]

text \<open>\<open>torch.cat(output_chunks, dim=2)\<close> raises on an empty list of tensors.\<close>

definition torch_cat :: "tensor list \<Rightarrow> error + tensor" where
  "torch_cat chunks = (if chunks = [] then Inl RuntimeError else Inr (concat chunks))"

text \<open>
  What a run of \<open>process_in_chunks\<close> does: the codec calls it made, the blends it made, and
  what it raised or returned.
\<close>

record run =
  codec_calls :: "tensor list"
  blend_seams :: "(nat \<times> tensor) list"
  result :: "error + tensor"

definition process_in_chunks ::
  "(tensor \<Rightarrow> tensor) \<Rightarrow> tensor \<Rightarrow> int \<Rightarrow> int \<Rightarrow> run option" where
  "process_in_chunks codec video_data chunk_size overlap =
     (if (chunk_size + overlap - 1) mod 4 \<noteq> 0
      then Some \<lparr>codec_calls = [], blend_seams = [], result = Inl AssertionError\<rparr>
      else
        (case chunk_loop codec video_data chunk_size overlap
                \<lparr>start = 0, output_chunks = [], calls = [], seams = []\<rparr> of
           None \<Rightarrow> None
         | Some (Inl (e, st)) \<Rightarrow>
             Some \<lparr>codec_calls = calls st, blend_seams = seams st, result = Inl e\<rparr>
         | Some (Inr st) \<Rightarrow>
             Some \<lparr>codec_calls = calls st, blend_seams = seams st,
                   result = torch_cat (output_chunks st)\<rparr>))"

text \<open>Readings of a run, and a test input whose frame \<open>i\<close> holds the single value \<open>i\<close>.\<close>

definition window_count :: "run option \<Rightarrow> nat option" where
  "window_count r = map_option (length \<circ> codec_calls) r"

definition seam_count :: "run option \<Rightarrow> nat option" where
  "seam_count r = map_option (length \<circ> blend_seams) r"

definition output_length :: "run option \<Rightarrow> (error + nat) option" where
  "output_length r = map_option (map_sum id length \<circ> result) r"

definition ramp :: "nat \<Rightarrow> tensor" where
  "ramp n = map (\<lambda>i. [of_nat i]) [0..<n]"

text \<open>The positions of the output that a seam covers.\<close>

definition seam_range :: "nat \<times> tensor \<Rightarrow> nat set" where
  "seam_range sm = {fst sm ..< fst sm + length (snd sm)}"

text \<open>
  The output length of the driver on \<open>T\<close> frames when the codec keeps the length of its
  input, as the analysis of the loop gives it: \<open>k\<close> is the index of the final window.
\<close>

definition stitched_length :: "nat \<Rightarrow> nat \<Rightarrow> nat \<Rightarrow> nat" where
  "stitched_length T chunk_size overlap =
     (if T \<le> chunk_size then T
      else let k = (T - 1) div chunk_size
           in if k * chunk_size + overlap < T then T + overlap
              else 2 * T - k * chunk_size - overlap)"

section \<open>Four-dimensional tensors\<close>

text \<open>
  The shape normalizer and the video emitter work on \<open>(C, T, H, W)\<close> tensors. Such a tensor
  is its shape together with the value at each index; an index outside the shape is not
  part of the tensor.
\<close>

record 'a tensor4 =
  shape :: "nat \<times> nat \<times> nat \<times> nat"
  val :: "nat \<Rightarrow> nat \<Rightarrow> nat \<Rightarrow> nat \<Rightarrow> 'a"

section \<open>The shape normalizer: \<open>_format_video_shape\<close>\<close>

text \<open>
  \<open>video[:, :new_time, :new_height, :new_width]\<close> keeps every index it retains where it
  was; a slice \<open>[:k]\<close> of an axis of length \<open>n\<close> has length \<open>slice_bound n k\<close>. Python's \<open>%\<close>
  on integers is \<open>mod\<close> on \<open>int\<close>, and raises on a zero divisor.
\<close>

definition format_video_shape :: "'a tensor4 \<Rightarrow> int \<Rightarrow> int \<Rightarrow> error + 'a tensor4" where
  "format_video_shape video time_compress spatial_compress =
     (case shape video of (channels, time_n, height_n, width_n) \<Rightarrow>
        let time = int time_n; height = int height_n; width = int width_n
        in if time_compress = 0 \<or> spatial_compress = 0 then Inl ZeroDivisionError
           else
             let new_time = (if (time - 1) mod time_compress \<noteq> 0
                             then time - 1 - (time - 1) mod time_compress else time);
                 new_height = (if height mod spatial_compress \<noteq> 0
                               then height - height mod spatial_compress else height);
                 new_width = (if width mod spatial_compress \<noteq> 0
                              then width - width mod spatial_compress else width)
             in Inr (video\<lparr>shape := (channels, slice_bound time_n new_time,
                                      slice_bound height_n new_height,
                                      slice_bound width_n new_width)\<rparr>))"

section \<open>The video emitter: \<open>custom_to_video\<close>\<close>

definition clamp :: "real \<Rightarrow> real \<Rightarrow> real \<Rightarrow> real" where
  "clamp x lo hi = min (max x lo) hi"

text \<open>
  \<open>astype(np.uint8)\<close> drops the fraction. The cast of a value outside \<open>[0, 256)\<close> depends on
  the platform; it is modelled as wrapping around.
\<close>

definition astype_uint8 :: "real \<Rightarrow> 8 word" where
  "astype_uint8 v = word_of_int (if v < 0 then \<lceil>v\<rceil> else \<lfloor>v\<rfloor>)"

text \<open>
  The result is the array that \<open>custom_to_video\<close> hands to \<open>array_to_video\<close>, which passes
  each of its images to the video writer.
\<close>

definition custom_to_video :: "real tensor4 \<Rightarrow> (8 word) tensor4" where
  "custom_to_video x =
     (let x1 = x\<lparr>val := (\<lambda>c t h w. clamp (val x c t h w) (- 1) 1)\<rparr>;
          x2 = x1\<lparr>val := (\<lambda>c t h w. (val x1 c t h w + 1) / 2)\<rparr>;
          x3 = (case shape x2 of (c, t, h, w) \<Rightarrow>
                  \<lparr>shape = (t, h, w, c), val = (\<lambda>t h w c. val x2 c t h w)\<rparr>)
      in \<lparr>shape = shape x3, val = (\<lambda>t h w c. astype_uint8 (255 * val x3 t h w c))\<rparr>)"

section \<open>Double-precision arithmetic\<close>

text \<open>
  The frame sampler computes with Python floats and NumPy \<open>float64\<close>. A double is modelled
  as the rational it denotes; an operation returns the exact result rounded to 53
  significant bits, ties to even. The exponent range is not bounded: overflow and
  subnormal numbers, which need magnitudes beyond \<open>2 ^ 1023\<close> or below \<open>2 ^ - 1022\<close>, are
  not modelled.
\<close>

definition pow2 :: "int \<Rightarrow> rat" where
  "pow2 k = (if 0 \<le> k then 2 ^ nat k else 1 / 2 ^ nat (- k))"

definition float_exponent :: "rat \<Rightarrow> int" where
  "float_exponent x =
     (case quotient_of \<bar>x\<bar> of (p, q) \<Rightarrow>
        let d = bitlen p - bitlen q in if pow2 d \<le> \<bar>x\<bar> then d else d - 1)"

definition round_half_even :: "rat \<Rightarrow> int" where
  "round_half_even x =
     (let f = \<lfloor>x\<rfloor>; d = x - of_int f
      in if d < 1 / 2 then f else if 1 / 2 < d then f + 1 else if even f then f else f + 1)"

definition fl :: "rat \<Rightarrow> rat" where
  "fl x = (if x = 0 then 0
           else let ulp = pow2 (float_exponent x - 52)
                in of_int (round_half_even (x / ulp)) * ulp)"

text \<open>\<open>int(v)\<close> of a float truncates towards zero.\<close>

definition py_int :: "rat \<Rightarrow> int" where
  "py_int v = (if v < 0 then \<lceil>v\<rceil> else \<lfloor>v\<rfloor>)"

section \<open>The frame sampler of \<open>read_video\<close> and \<open>RealVideoDataset._load_video\<close>\<close>

text \<open>
  \<open>np.linspace(start, stop, num, dtype=int)\<close> with integer arguments, after NumPy's
  \<open>function_base.linspace\<close>: a negative \<open>num\<close> raises; the samples are
  \<open>arange(0, num) * step + start\<close> in \<open>float64\<close> with \<open>step = (stop - start) / (num - 1)\<close>;
  the last sample is set to \<open>stop\<close> when \<open>num > 1\<close>; the samples are floored and cast.
\<close>

definition linspace_int :: "int \<Rightarrow> int \<Rightarrow> int \<Rightarrow> error + int list" where
  "linspace_int start_value stop_value num =
     (if num < 0 then Inl ValueError
      else
        let dv = num - 1;
            delta = fl (fl (of_int stop_value) - fl (of_int start_value));
            idx = map (\<lambda>i. fl (of_nat i)) [0..<nat num];
            y = (if 0 < dv then
                   (let step = fl (delta / fl (of_int dv))
                    in if step = 0
                       then map (\<lambda>v. fl (fl (v / fl (of_int dv)) * delta)) idx
                       else map (\<lambda>v. fl (v * step)) idx)
                 else map (\<lambda>v. fl (v * delta)) idx);
            y1 = map (\<lambda>v. fl (v + fl (of_int start_value))) y;
            y2 = (if 1 < num then y1[nat num - 1 := fl (of_int stop_value)] else y1)
        in Inr (map floor y2))"

text \<open>
  What the sampler settles before it reads any frame: the range \<open>[s, e)\<close> it samples from
  (\<open>sample_s\<close>, \<open>sample_e\<close>), the effective frame count \<open>num_frames\<close>, whether it printed the diagnostic, and the indices it asks
  the video for.
\<close>

record sampling =
  sample_s :: int
  sample_e :: int
  sample_num_frames :: int
  diagnostic :: bool
  frame_id_list :: "int list"

definition read_video :: "nat \<Rightarrow> int \<Rightarrow> int \<Rightarrow> error + sampling" where
  "read_video video_len num_frames0 sample_rate =
     (let total_frames = int video_len;
          sample_frames_len = sample_rate * num_frames0
      in if total_frames > sample_frames_len then
           (case linspace_int 0 (sample_frames_len - 1) num_frames0 of
              Inl err \<Rightarrow> Inl err
            | Inr ids \<Rightarrow> Inr \<lparr>sample_s = 0, sample_e = sample_frames_len,
                               sample_num_frames = num_frames0,
                               diagnostic = False, frame_id_list = ids\<rparr>)
         else if sample_frames_len = 0 then Inl ZeroDivisionError
         else
           (let n = py_int (fl (fl (of_int total_frames / of_int sample_frames_len)
                                  * fl (of_int num_frames0)))
            in case linspace_int 0 (total_frames - 1) n of
                 Inl err \<Rightarrow> Inl err
               | Inr ids \<Rightarrow> Inr \<lparr>sample_s = 0, sample_e = total_frames, sample_num_frames = n,
                                  diagnostic = True, frame_id_list = ids\<rparr>))"

text \<open>\<open>RealVideoDataset._load_video\<close> repeats the sampler of \<open>read_video\<close> line by line.\<close>

definition load_video :: "nat \<Rightarrow> int \<Rightarrow> int \<Rightarrow> error + sampling" where
  "load_video video_len num_frames0 sample_rate =
     (let total_frames = int video_len;
          sample_frames_len = sample_rate * num_frames0
      in if total_frames > sample_frames_len then
           (case linspace_int 0 (sample_frames_len - 1) num_frames0 of
              Inl err \<Rightarrow> Inl err
            | Inr ids \<Rightarrow> Inr \<lparr>sample_s = 0, sample_e = sample_frames_len,
                               sample_num_frames = num_frames0,
                               diagnostic = False, frame_id_list = ids\<rparr>)
         else if sample_frames_len = 0 then Inl ZeroDivisionError
         else
           (let n = py_int (fl (fl (of_int total_frames / of_int sample_frames_len)
                                  * fl (of_int num_frames0)))
            in case linspace_int 0 (total_frames - 1) n of
                 Inl err \<Rightarrow> Inl err
               | Inr ids \<Rightarrow> Inr \<lparr>sample_s = 0, sample_e = total_frames, sample_num_frames = n,
                                  diagnostic = True, frame_id_list = ids\<rparr>))"

section \<open>Invariants of the loop\<close>

text \<open>
  What was written at a seam stays where it was written: every seam lies inside \<open>out\<close> and
  \<open>out\<close> holds the blended frames there.
\<close>

definition seams_written :: "(nat \<times> tensor) list \<Rightarrow> tensor \<Rightarrow> bool" where
  "seams_written ss out \<longleftrightarrow>
     (\<forall>sm \<in> set ss. fst sm + length (snd sm) \<le> length out \<and>
                     take (length (snd sm)) (drop (fst sm) out) = snd sm)"

definition seams_inv :: "state \<Rightarrow> bool" where
  "seams_inv st \<longleftrightarrow>
     (output_chunks st = [] \<longrightarrow> seams st = []) \<and>
     seams_written (seams st) (concat (butlast (output_chunks st))) \<and>
     sorted_wrt (\<lambda>a b. fst a + length (snd a) \<le> fst b) (seams st)"

text \<open>
  The state of the loop after \<open>j\<close> windows on \<open>T\<close> frames, for a codec that keeps the length
  of its input and \<open>1 \<le> overlap\<close>, \<open>2 * overlap \<le> chunk_size\<close>: the length of the buffer,
  according to whether window \<open>j - 1\<close> was extended by the lookahead, was not extended, or
  was the final one.
\<close>

definition regular_inv :: "nat \<Rightarrow> nat \<Rightarrow> nat \<Rightarrow> state \<Rightarrow> bool" where
  "regular_inv T c ov st \<longleftrightarrow>
     (\<exists>j. start st = int (j * c) \<and> length (calls st) = j \<and>
       (if j = 0 then output_chunks st = [] \<and> seams st = []
        else output_chunks st \<noteq> [] \<and> length (seams st) + 1 = j \<and> (j - 1) * c < T \<and>
          (if j * c + ov < T
           then length (concat (output_chunks st)) = j * c + ov \<and>
                ov \<le> length (last (output_chunks st))
           else if j * c < T
           then length (concat (output_chunks st)) = j * c \<and>
                ov \<le> length (last (output_chunks st))
           else length (concat (output_chunks st)) = stitched_length T c ov)))"

section \<open>Facts about the loop of the chunked driver\<close>

lemma slice_bound_int: "slice_bound n (int k) = min k n"
  by (simp add: slice_bound_def)


text \<open>
  The proof rule for the loop: a property of the state that holds at the start and that
  every iteration keeps holds when the loop is left, by an exception or at its end.
\<close>

lemma chunk_loop_rule:
  assumes run: "chunk_loop codec vd c ov st = Some y"
    and init: "I st"
    and step: "\<And>s s'. I s \<Longrightarrow> start s < int (length vd) \<Longrightarrow>
                 chunk_step codec vd c ov s = Inr s' \<Longrightarrow> I s'"
    and err: "\<And>s x. I s \<Longrightarrow> start s < int (length vd) \<Longrightarrow>
                 chunk_step codec vd c ov s = Inl x \<Longrightarrow> Q (Inl x)"
    and fin: "\<And>s. I s \<Longrightarrow> \<not> start s < int (length vd) \<Longrightarrow> Q (Inr s)"
  shows "Q y"
proof -
  let ?P = "\<lambda>codec' vd' c' ov' s y.
              codec' = codec \<longrightarrow> vd' = vd \<longrightarrow> c' = c \<longrightarrow> ov' = ov \<longrightarrow> I s \<longrightarrow> Q y"
  have "?P codec vd c ov st y"
  proof (rule chunk_loop.raw_induct [where P = ?P, OF _ run])
    fix f codec' vd' c' ov' s y
    assume IH: "\<And>cd v cs ovl s y. f cd v cs ovl s = Some y \<Longrightarrow> ?P cd v cs ovl s y"
      and body: "(if start s < int (length vd') then
                    case chunk_step codec' vd' c' ov' s of Inl x \<Rightarrow> Some (Inl x)
                    | Inr st' \<Rightarrow> f codec' vd' c' ov' st'
                  else Some (Inr s)) = Some y"
    show "?P codec' vd' c' ov' s y"
    proof (intro impI)
      assume eqs: "codec' = codec" "vd' = vd" "c' = c" "ov' = ov" and inv: "I s"
      show "Q y"
      proof (cases "start s < int (length vd)")
        case False
        with body eqs have "y = Inr s" by simp
        with fin [OF inv False] show ?thesis by simp
      next
        case True
        show ?thesis
        proof (cases "chunk_step codec vd c ov s")
          case (Inl x)
          with body eqs True have "y = Inl x" by simp
          with err [OF inv True Inl] show ?thesis by simp
        next
          case (Inr s')
          with body eqs True have "f codec vd c ov s' = Some y" by simp
          from IH [OF this] step [OF inv True Inr] show ?thesis by simp
        qed
      qed
    qed
  qed
  with init show ?thesis by simp
qed

lemma chunk_step_start:
  "chunk_step codec vd c ov s = Inr s' \<Longrightarrow> start s' = start s + c"
  by (auto simp: chunk_step_def Let_def split: if_splits sum.splits)

text \<open>With a positive \<open>chunk_size\<close> the loop is left after finitely many iterations.\<close>

lemma chunk_loop_returns:
  assumes "1 \<le> c"
  shows "\<exists>y. chunk_loop codec vd c ov st = Some y"
proof (induction "nat (int (length vd) - start st)" arbitrary: st rule: less_induct)
  case less
  show ?case
  proof (cases "start st < int (length vd)")
    case False
    then show ?thesis by (subst chunk_loop.simps) simp
  next
    case True
    show ?thesis
    proof (cases "chunk_step codec vd c ov st")
      case (Inl x)
      with True show ?thesis by (subst chunk_loop.simps) simp
    next
      case (Inr s')
      from chunk_step_start [OF Inr] assms True
      have "nat (int (length vd) - start s') < nat (int (length vd) - start st)" by simp
      from less [OF this] obtain y where "chunk_loop codec vd c ov s' = Some y" ..
      with True Inr show ?thesis by (subst chunk_loop.simps) simp
    qed
  qed
qed

lemma chunk_step_error:
  "chunk_step codec vd c ov s = Inl (x, s') \<Longrightarrow> x = RuntimeError"
  by (auto simp: chunk_step_def blend_def Let_def split: if_splits sum.splits)

lemma chunk_loop_error:
  assumes "chunk_loop codec vd c ov st = Some (Inl (x, s'))"
  shows "x = RuntimeError"
  using assms
  by (rule chunk_loop_rule [where I = "\<lambda>_. True"
        and Q = "\<lambda>y. \<forall>x s'. y = Inl (x, s') \<longrightarrow> x = RuntimeError", rule_format])
     (auto dest: chunk_step_error)

section \<open>Slices and single iterations on natural numbers\<close>

lemma py_slice_head: "py_slice xs None (Some (int k)) = take k xs"
  by (simp add: py_slice_def slice_bound_int min_def Let_def)

lemma py_slice_from: "py_slice xs (Some (int k)) None = drop k xs"
  by (simp add: py_slice_def slice_bound_int min_def Let_def)

lemma py_slice_last: "0 < k \<Longrightarrow> py_slice xs (Some (- int k)) None = drop (length xs - k) xs"
  by (auto simp: py_slice_def slice_bound_def max_def nat_diff_distrib' Let_def)

lemma py_slice_but_last:
  "0 < k \<Longrightarrow> py_slice xs None (Some (- int k)) = take (length xs - k) xs"
  by (auto simp: py_slice_def slice_bound_def max_def nat_diff_distrib' Let_def)

lemma py_slice_range:
  "py_slice xs (Some (int a)) (Some (int b)) = take (b - a) (drop a xs)"
  by (auto simp: py_slice_def slice_bound_int min_def Let_def)

lemma blend_aligned:
  "length ps = length cs \<Longrightarrow> blend ps cs = Inr (map2 blend_frame ps cs)"
  by (simp add: blend_def)

lemma window_end_nat:
  "(if int a + int c + int ov < int T then min (int a + int c) (int T) + int ov
    else min (int a + int c) (int T)) =
   int (if a + c + ov < T then min (a + c) T + ov else min (a + c) T)"
  by (simp add: of_nat_min)

lemma chunk_step_first:
  assumes "output_chunks st = []" and "start st = int a"
    and "en = (if a + c + ov < length vd then min (a + c) (length vd) + ov
               else min (a + c) (length vd))"
    and "chunk = take (en - a) (drop a vd)"
  shows "chunk_step codec vd (int c) (int ov) st =
           Inr (st\<lparr>calls := calls st @ [chunk], output_chunks := [codec chunk],
                    start := int (a + c)\<rparr>)"
  unfolding chunk_step_def Let_def assms(1,2) window_end_nat assms(3) [symmetric]
    py_slice_range assms(4) [symmetric]
  by simp

lemma chunk_step_blend:
  assumes buf: "output_chunks st \<noteq> []" and a: "start st = int a"
    and en: "en = (if a + c + ov < length vd then min (a + c) (length vd) + ov
               else min (a + c) (length vd))"
    and chunk: "chunk = take (en - a) (drop a vd)"
    and recon: "recon = codec chunk"
    and prev: "prev = last (output_chunks st)"
    and os: "os = min ov (length recon)"
    and pos: "0 < os" and fits: "os \<le> length prev"
    and bl: "bl = map2 blend_frame (drop (length prev - os) prev) (take os recon)"
  shows "chunk_step codec vd (int c) (int ov) st =
           Inr (st\<lparr>calls := calls st @ [chunk],
                    output_chunks := butlast (output_chunks st)
                        @ [take (length prev - ov) prev @ bl]
                        @ [if en < length vd then drop ov recon else recon],
                    seams := seams st @
                        [(length (concat (butlast (output_chunks st))) + (length prev - ov), bl)],
                    start := int (a + c)\<rparr>)"
proof -
  from pos os have ov: "0 < ov" by simp
  have osi: "min (int ov) (int (length recon)) = int os"
    by (simp add: os of_nat_min)
  have "length (drop (length prev - os) prev) = length (take os recon)"
    using fits os by simp
  then have blend: "blend (drop (length prev - os) prev) (take os recon) = Inr bl"
    unfolding bl by (rule blend_aligned)
  show ?thesis
    unfolding chunk_step_def Let_def a window_end_nat en [symmetric]
      py_slice_range chunk [symmetric] recon [symmetric] prev [symmetric] osi
      py_slice_last [OF pos] py_slice_head py_slice_but_last [OF ov] py_slice_from blend
    using buf by simp
qed

lemma concat_butlast_snoc: "xs \<noteq> [] \<Longrightarrow> concat (butlast xs) @ last xs = concat xs"
  by (induction xs) auto

lemma process_in_chunks_cases:
  assumes "process_in_chunks codec vd c ov = Some r"
  obtains (precondition) "(c + ov - 1) mod 4 \<noteq> 0"
      "r = \<lparr>codec_calls = [], blend_seams = [], result = Inl AssertionError\<rparr>"
    | (raised) x st where "(c + ov - 1) mod 4 = 0"
      "chunk_loop codec vd c ov \<lparr>start = 0, output_chunks = [], calls = [], seams = []\<rparr>
         = Some (Inl (x, st))"
      "r = \<lparr>codec_calls = calls st, blend_seams = seams st, result = Inl x\<rparr>"
    | (returned) st where "(c + ov - 1) mod 4 = 0"
      "chunk_loop codec vd c ov \<lparr>start = 0, output_chunks = [], calls = [], seams = []\<rparr>
         = Some (Inr st)"
      "r = \<lparr>codec_calls = calls st, blend_seams = seams st,
             result = torch_cat (output_chunks st)\<rparr>"
proof (cases "(c + ov - 1) mod 4 = 0")
  case False
  with assms precondition show ?thesis by (simp add: process_in_chunks_def)
next
  case True
  show ?thesis
  proof (cases "chunk_loop codec vd c ov
                  \<lparr>start = 0, output_chunks = [], calls = [], seams = []\<rparr>")
    case None
    with assms True show ?thesis by (simp add: process_in_chunks_def)
  next
    case (Some y)
    show ?thesis
    proof (cases y)
      case (Inl p)
      obtain x st where "p = (x, st)" by (cases p)
      with assms True Some Inl raised [of x st] show ?thesis
        by (simp add: process_in_chunks_def)
    next
      case (Inr st)
      with assms True Some returned [of st] show ?thesis
        by (simp add: process_in_chunks_def)
    qed
  qed
qed

section \<open>The precondition guard\<close>

text \<open>
  Claim C1. \<open>process_in_chunks\<close> raises its configuration error, the \<open>AssertionError\<close> of
  its first line, if and only if \<open>(chunk_size + overlap - 1) mod 4 \<noteq> 0\<close>: when the modulus
  is not 0 the run ends with that error and has called the codec not once; when it is 0 no
  run ends with that error.
\<close>

theorem process_in_chunks_precondition:
  "((chunk_size + overlap - 1) mod 4 \<noteq> 0 \<longrightarrow>
      process_in_chunks codec video_data chunk_size overlap =
        Some \<lparr>codec_calls = [], blend_seams = [], result = Inl AssertionError\<rparr>) \<and>
   ((chunk_size + overlap - 1) mod 4 = 0 \<longrightarrow>
      (\<forall>r. process_in_chunks codec video_data chunk_size overlap = Some r \<longrightarrow>
           result r \<noteq> Inl AssertionError))"
proof (intro conjI impI allI)
  assume "(chunk_size + overlap - 1) mod 4 \<noteq> 0"
  then show "process_in_chunks codec video_data chunk_size overlap =
        Some \<lparr>codec_calls = [], blend_seams = [], result = Inl AssertionError\<rparr>"
    by (simp add: process_in_chunks_def)
next
  fix r
  assume ok: "(chunk_size + overlap - 1) mod 4 = 0"
    and r: "process_in_chunks codec video_data chunk_size overlap = Some r"
  show "result r \<noteq> Inl AssertionError"
  proof (cases "chunk_loop codec video_data chunk_size overlap
                  \<lparr>start = 0, output_chunks = [], calls = [], seams = []\<rparr>")
    case None
    with ok r show ?thesis by (simp add: process_in_chunks_def)
  next
    case (Some y)
    show ?thesis
    proof (cases y)
      case (Inl p)
      obtain x s' where p: "p = (x, s')" by (cases p)
      from Some Inl p have "x = RuntimeError" by (auto dest: chunk_loop_error)
      with ok r Some Inl p show ?thesis by (auto simp: process_in_chunks_def)
    next
      case (Inr s')
      with ok r Some show ?thesis
        by (auto simp: process_in_chunks_def torch_cat_def split: if_splits)
    qed
  qed
qed

theorem process_in_chunks_precondition_witness:
  "(16 + 4 - 1) mod 4 \<noteq> (0::int) \<and>
   process_in_chunks id [[1], [2]] 16 4 =
     Some \<lparr>codec_calls = [], blend_seams = [], result = Inl AssertionError\<rparr> \<and>
   (13 + 4 - 1) mod 4 = (0::int) \<and>
   process_in_chunks id [[1], [2]] 13 4 =
     Some \<lparr>codec_calls = [[[1], [2]]], blend_seams = [], result = Inr [[1], [2]]\<rparr> \<and>
   result \<lparr>codec_calls = [[[1], [2]]], blend_seams = [], result = Inr [[1], [2]]\<rparr>
     \<noteq> Inl AssertionError"
proof -
  have "process_in_chunks id [[1], [2]] 13 4 =
     Some \<lparr>codec_calls = [[[1], [2]]], blend_seams = [], result = Inr [[1], [2]]\<rparr>"
    by code_simp
  then show ?thesis
    using process_in_chunks_precondition [of 16 4 id "[[1], [2]]"]
          process_in_chunks_precondition [of 13 4 id "[[1], [2]]"]
    by simp
qed

section \<open>A single window\<close>



section \<open>Blending\<close>

text \<open>
  The blend of an iteration, when it has frames to work on, is \<open>chunk_step_blend\<close> above:
  with \<open>overlap_step = min overlap (length recon)\<close>, \<open>0 < overlap_step\<close> and a previous entry
  of at least \<open>overlap_step\<close> frames, the last \<open>overlap_step\<close> frames of the previous entry
  and the first \<open>overlap_step\<close> frames of the reconstructed chunk are combined frame by
  frame by \<open>blend_frame\<close>, and the result replaces the last \<open>overlap\<close> frames of the previous
  entry. A previous value 1 and a current value 0 blend to \<open>1 / 4\<close>.
\<close>

lemma blend_example: "blend [[1]] [[0]] = Inr [[1 / 4]]"
  by (simp add: blend_def blend_frame_def)

lemma blend_frame_weights:
  "blend_frame [p] [c] = [p * (1 / 4) + c * (3 / 4)]"
  by (simp add: blend_frame_def)

text \<open>
  Claim C2 says that the blend happens whenever a previous chunk exists. With
  \<open>overlap = 0\<close>, which the precondition admits for \<open>chunk_size = 5\<close> and for
  \<open>chunk_size = 1\<close>, \<open>overlap_step\<close> is 0 and the slice \<open>[-overlap_step:]\<close> is \<open>[0:]\<close>, the whole
  previous entry, not its last 0 frames. On 10 frames with \<open>chunk_size = 5\<close> the second
  window adds 5 frames to 0 frames and raises; on 3 frames with \<open>chunk_size = 1\<close> the
  addition broadcasts to 0 frames and every previous entry is replaced by nothing, so
  that only the last frame is returned.
\<close>

theorem blend_zero_overlap_raises:
  "(5 + 0 - 1) mod 4 = (0::int) \<and>
   process_in_chunks id (ramp 10) 5 0 =
     Some \<lparr>codec_calls = [take 5 (ramp 10), drop 5 (ramp 10)], blend_seams = [],
           result = Inl RuntimeError\<rparr> \<and>
   (1 + 0 - 1) mod 4 = (0::int) \<and>
   process_in_chunks id (ramp 3) 1 0 =
     Some \<lparr>codec_calls = [[[0]], [[1]], [[2]]], blend_seams = [(0, []), (0, [])],
           result = Inr [[2]]\<rparr>"
  by code_simp

section \<open>The length of the output\<close>

lemma ramp_length: "length (ramp n) = n"
  by (simp add: ramp_def)

lemma final_window_index:
  assumes "j * c < T" "T \<le> j * c + c"
  shows "(T - 1) div c = (j::nat)"
proof (rule div_nat_eqI)
  from assms show "c * j \<le> T - 1" by (simp add: mult.commute)
  from assms show "T - 1 < c * Suc j" by (simp add: mult.commute)
qed

lemma concat_butlast_last:
  "xs \<noteq> [] \<Longrightarrow> length (concat xs) = length (concat (butlast xs)) + length (last xs)"
  by (induction xs) auto

lemma regular_inv_first:
  assumes len: "\<And>x. length (codec x) = length x"
    and ov: "1 \<le> ov" and c: "2 * ov \<le> c"
    and st: "start st = 0" "calls st = []" "output_chunks st = []" "seams st = []"
    and T: "0 < length vd"
  shows "\<exists>st'. chunk_step codec vd (int c) (int ov) st = Inr st' \<and>
               regular_inv (length vd) c ov st'"
proof -
  define T where "T = length vd"
  define en where "en = (if 0 + c + ov < T then min (0 + c) T + ov else min (0 + c) T)"
  define chunk where "chunk = take (en - 0) (drop 0 vd)"
  let ?st' = "st\<lparr>calls := calls st @ [chunk], output_chunks := [codec chunk],
                 start := int (0 + c)\<rparr>"
  have step: "chunk_step codec vd (int c) (int ov) st = Inr ?st'"
    by (rule chunk_step_first [OF st(3) _ en_def [unfolded T_def] chunk_def]) (simp add: st)
  have enT: "en \<le> T" by (simp add: en_def)
  then have L: "length (codec chunk) = en" by (simp add: len chunk_def T_def)
  have "regular_inv T c ov ?st'"
    unfolding regular_inv_def
  proof (intro exI [of _ 1] conjI)
    show "start ?st' = int (1 * c)" by simp
    show "length (calls ?st') = 1" by (simp add: st)
    show "if (1::nat) = 0 then output_chunks ?st' = [] \<and> seams ?st' = []
          else output_chunks ?st' \<noteq> [] \<and> length (seams ?st') + 1 = 1 \<and> (1 - 1) * c < T \<and>
            (if 1 * c + ov < T
             then length (concat (output_chunks ?st')) = 1 * c + ov \<and>
                  ov \<le> length (last (output_chunks ?st'))
             else if 1 * c < T
             then length (concat (output_chunks ?st')) = 1 * c \<and>
                  ov \<le> length (last (output_chunks ?st'))
             else length (concat (output_chunks ?st')) = stitched_length T c ov)"
      using T c by (auto simp: st L en_def T_def stitched_length_def)
  qed
  with step show ?thesis unfolding T_def by blast
qed


lemma regular_inv_next:
  assumes len: "\<And>x. length (codec x) = length x"
    and ov: "1 \<le> ov" and c: "2 * ov \<le> c"
    and j: "start st = int (j * c)" "length (calls st) = j" "0 < j"
    and buf: "output_chunks st \<noteq> []" and sm: "length (seams st) + 1 = j"
    and more: "j * c < length vd"
    and total: "length (concat (output_chunks st)) = (if j * c + ov < length vd then j * c + ov else j * c)"
    and prev_len: "ov \<le> length (last (output_chunks st))"
  shows "\<exists>st'. chunk_step codec vd (int c) (int ov) st = Inr st' \<and>
               regular_inv (length vd) c ov st'"
proof -
  define T where "T = length vd"
  define a where "a = j * c"
  define en where "en = (if a + c + ov < T then min (a + c) T + ov else min (a + c) T)"
  define chunk where "chunk = take (en - a) (drop a vd)"
  define recon where "recon = codec chunk"
  define prev where "prev = last (output_chunks st)"
  define os where "os = min ov (length recon)"
  define bl where "bl = map2 blend_frame (drop (length prev - os) prev) (take os recon)"
  define new where "new = (if en < T then drop ov recon else recon)"
  define before where "before = length (concat (butlast (output_chunks st)))"
  let ?st' = "st\<lparr>calls := calls st @ [chunk],
                 output_chunks := butlast (output_chunks st)
                     @ [take (length prev - ov) prev @ bl] @ [new],
                 seams := seams st @ [(before + (length prev - ov), bl)],
                 start := int (a + c)\<rparr>"
  from more have aT: "a < T" by (simp add: a_def T_def)
  have enT: "en \<le> T" "a < en" using aT ov c by (auto simp: en_def)
  then have L: "length recon = en - a"
    by (simp add: recon_def len chunk_def T_def)
  with enT ov have os_pos: "0 < os" by (simp add: os_def)
  have os_le: "os \<le> length prev" using prev_len by (simp add: os_def prev_def)
  have step: "chunk_step codec vd (int c) (int ov) st = Inr ?st'"
    unfolding new_def before_def T_def
    by (rule chunk_step_blend [where codec = codec and chunk = chunk,
          OF buf j(1) [folded a_def] en_def [unfolded T_def] chunk_def
          recon_def prev_def os_def os_pos os_le bl_def])
  have bl_len: "length bl = os" using os_le by (simp add: bl_def os_def)
  have tot: "length (concat (output_chunks st)) = before + length prev"
    unfolding before_def prev_def by (rule concat_butlast_last [OF buf])
  have new_len: "length new = (if en < T then en - a - ov else en - a)"
    by (simp add: new_def L)
  have total': "length (concat (output_chunks ?st')) =
                  before + (length prev - ov) + os + length new"
    by (simp add: bl_len before_def)
  have last': "last (output_chunks ?st') = new" by simp
  have sc: "Suc j * c = a + c" by (simp add: a_def)
  have prev_ov: "ov \<le> length prev" using prev_len by (simp add: prev_def)
  have "regular_inv T c ov ?st'"
    unfolding regular_inv_def
  proof (intro exI [of _ "Suc j"] conjI)
    show "start ?st' = int (Suc j * c)" by (simp add: a_def)
    show "length (calls ?st') = Suc j" by (simp add: j)
    have ne: "output_chunks ?st' \<noteq> []" by simp
    have sm': "length (seams ?st') + 1 = Suc j" using sm by simp
    have lt: "(Suc j - 1) * c < T" using aT by (simp add: a_def)
    have body: "if Suc j * c + ov < T
           then length (concat (output_chunks ?st')) = Suc j * c + ov \<and>
                ov \<le> length (last (output_chunks ?st'))
           else if Suc j * c < T
           then length (concat (output_chunks ?st')) = Suc j * c \<and>
                ov \<le> length (last (output_chunks ?st'))
           else length (concat (output_chunks ?st')) = stitched_length T c ov"
    proof (cases "a + ov < T")
      case True
      with total tot have before: "before + length prev = a + ov"
        by (simp add: a_def T_def)
      show ?thesis
      proof (cases "a + c + ov < T")
        case ext: True
        then have "en = a + c + ov" by (simp add: en_def)
        with ext ov c prev_ov before show ?thesis
          unfolding total' last' sc new_len os_def L by simp
      next
        case False
        show ?thesis
        proof (cases "a + c < T")
          case mid: True
          with False have "en = a + c" by (simp add: en_def)
          with False mid ov c prev_ov before show ?thesis
            unfolding total' last' sc new_len os_def L by simp
        next
          case fin: False
          with False have en: "en = T" by (simp add: en_def)
          from fin aT have k: "(T - 1) div c = j"
            by (intro final_window_index) (simp_all add: a_def)
          have "c \<le> a" using j(3) by (simp add: a_def)
          with True have "c < T" by simp
          with k True have sl: "stitched_length T c ov = T + ov"
            by (simp add: stitched_length_def a_def)
          from fin False en True ov c prev_ov before aT show ?thesis
            unfolding total' last' sc new_len os_def L sl by simp
        qed
      qed
    next
      case False
      with total tot have before: "before + length prev = a"
        by (simp add: a_def T_def)
      from False aT c ov have en: "en = T" by (simp add: en_def)
      from False aT c ov have k: "(T - 1) div c = j"
        by (intro final_window_index) (simp_all add: a_def)
      have "c \<le> a" using j(3) by (simp add: a_def)
      with aT have cT: "c < T" by simp
      with k False have sl: "stitched_length T c ov = 2 * T - a - ov"
        by (simp add: stitched_length_def a_def)
      from False en ov c prev_ov before aT \<open>c \<le> a\<close> show ?thesis
        unfolding total' last' sc new_len os_def L sl by simp
    qed
    from ne sm' lt body
    show "if Suc j = 0 then output_chunks ?st' = [] \<and> seams ?st' = []
          else output_chunks ?st' \<noteq> [] \<and> length (seams ?st') + 1 = Suc j \<and>
            (Suc j - 1) * c < T \<and>
            (if Suc j * c + ov < T
             then length (concat (output_chunks ?st')) = Suc j * c + ov \<and>
                  ov \<le> length (last (output_chunks ?st'))
             else if Suc j * c < T
             then length (concat (output_chunks ?st')) = Suc j * c \<and>
                  ov \<le> length (last (output_chunks ?st'))
             else length (concat (output_chunks ?st')) = stitched_length T c ov)"
      by (simp only: nat.simps if_False simp_thms)
  qed
  with step show ?thesis unfolding T_def by blast
qed


lemma regular_inv_step:
  assumes len: "\<And>x. length (codec x) = length x"
    and ov: "1 \<le> ov" and c: "2 * ov \<le> c"
    and inv: "regular_inv (length vd) c ov st"
    and more: "start st < int (length vd)"
  shows "\<exists>st'. chunk_step codec vd (int c) (int ov) st = Inr st' \<and>
               regular_inv (length vd) c ov st'"
proof -
  from inv obtain j where j: "start st = int (j * c)" "length (calls st) = j"
    and body: "if j = 0 then output_chunks st = [] \<and> seams st = []
        else output_chunks st \<noteq> [] \<and> length (seams st) + 1 = j \<and> (j - 1) * c < length vd \<and>
          (if j * c + ov < length vd
           then length (concat (output_chunks st)) = j * c + ov \<and>
                ov \<le> length (last (output_chunks st))
           else if j * c < length vd
           then length (concat (output_chunks st)) = j * c \<and>
                ov \<le> length (last (output_chunks st))
           else length (concat (output_chunks st)) = stitched_length (length vd) c ov)"
    unfolding regular_inv_def by blast
  from more have "int (j * c) < int (length vd)" unfolding j(1) .
  then have lt: "j * c < length vd" by (simp only: of_nat_less_iff)
  show ?thesis
  proof (cases "j = 0")
    case True
    with j body lt show ?thesis
      by (intro regular_inv_first [OF len ov c]) simp_all
  next
    case False
    with body lt have buf: "output_chunks st \<noteq> []" and sm: "length (seams st) + 1 = j"
      and total: "length (concat (output_chunks st)) =
                    (if j * c + ov < length vd then j * c + ov else j * c)"
      and prev_len: "ov \<le> length (last (output_chunks st))"
      by (simp_all split: if_splits)
    from False have "0 < j" by simp
    from regular_inv_next [OF len ov c j this buf sm lt total prev_len]
    show ?thesis .
  qed
qed

lemma process_in_chunks_regular:
  assumes len: "\<And>x. length (codec x) = length x"
    and ov: "1 \<le> ov" and c: "2 * ov \<le> c"
    and pre: "(int c + int ov - 1) mod 4 = 0"
    and ne: "vd \<noteq> []"
  shows "\<exists>cs ss out.
           process_in_chunks codec vd (int c) (int ov) =
             Some \<lparr>codec_calls = cs, blend_seams = ss, result = Inr out\<rparr> \<and>
           length cs = (length vd - 1) div c + 1 \<and>
           length ss = (length vd - 1) div c \<and>
           length out = stitched_length (length vd) c ov"
proof -
  let ?init = "\<lparr>start = 0, output_chunks = [], calls = [], seams = []\<rparr>"
  let ?T = "length vd"
  from ov c have "1 \<le> int c" by simp
  from chunk_loop_returns [OF this] obtain y
    where y: "chunk_loop codec vd (int c) (int ov) ?init = Some y" by blast
  have init: "regular_inv ?T c ov ?init"
    unfolding regular_inv_def by (intro exI [of _ 0]) simp
  have "\<exists>st. y = Inr st \<and> regular_inv ?T c ov st \<and> \<not> start st < int ?T"
  proof (rule chunk_loop_rule [OF y, where I = "regular_inv ?T c ov"])
    show "regular_inv ?T c ov ?init" by (rule init)
  next
    fix s s'
    assume "regular_inv ?T c ov s" "start s < int ?T"
      "chunk_step codec vd (int c) (int ov) s = Inr s'"
    with regular_inv_step [OF len ov c, of vd s] show "regular_inv ?T c ov s'" by auto
  next
    fix s x
    assume "regular_inv ?T c ov s" "start s < int ?T"
      "chunk_step codec vd (int c) (int ov) s = Inl x"
    with regular_inv_step [OF len ov c, of vd s]
    show "\<exists>st. Inl x = Inr st \<and> regular_inv ?T c ov st \<and> \<not> start st < int ?T" by auto
  next
    fix s
    assume "regular_inv ?T c ov s" "\<not> start s < int ?T"
    then show "\<exists>st. Inr s = Inr st \<and> regular_inv ?T c ov st \<and> \<not> start st < int ?T"
      by blast
  qed
  then obtain st where st: "y = Inr st" and inv: "regular_inv ?T c ov st"
    and exit: "\<not> start st < int ?T" by blast
  from inv obtain j where j: "start st = int (j * c)" "length (calls st) = j"
    and body: "if j = 0 then output_chunks st = [] \<and> seams st = []
        else output_chunks st \<noteq> [] \<and> length (seams st) + 1 = j \<and> (j - 1) * c < ?T \<and>
          (if j * c + ov < ?T
           then length (concat (output_chunks st)) = j * c + ov \<and>
                ov \<le> length (last (output_chunks st))
           else if j * c < ?T
           then length (concat (output_chunks st)) = j * c \<and>
                ov \<le> length (last (output_chunks st))
           else length (concat (output_chunks st)) = stitched_length ?T c ov)"
    unfolding regular_inv_def by blast
  from exit have "\<not> int (j * c) < int ?T" unfolding j(1) .
  then have ge: "?T \<le> j * c" by (simp only: of_nat_less_iff not_less)
  with ne have j0: "j \<noteq> 0" by (cases j) simp_all
  with body ge have buf: "output_chunks st \<noteq> []" and sm: "length (seams st) + 1 = j"
    and lt: "(j - 1) * c < ?T"
    and total: "length (concat (output_chunks st)) = stitched_length ?T c ov"
    by (simp_all split: if_splits)
  from j0 ge have "?T \<le> (j - 1) * c + c"
    by (cases j) simp_all
  from final_window_index [OF lt this] have k: "(?T - 1) div c = j - 1" .
  have run: "process_in_chunks codec vd (int c) (int ov) =
      Some \<lparr>codec_calls = calls st, blend_seams = seams st,
            result = Inr (concat (output_chunks st))\<rparr>"
    using pre y st buf by (simp add: process_in_chunks_def torch_cat_def)
  from j(2) j0 sm k total show ?thesis
    unfolding run by (intro exI conjI) (rule refl, simp_all)
qed

text \<open>
  Claim C3 says that with an identity codec the output has as many frames as the input,
  and never more. On 40 frames with \<open>chunk_size = 13\<close> and \<open>overlap = 4\<close> the output has 37
  frames; on 31 frames it has 35.
\<close>

theorem identity_output_length_counterexample:
  "(13 + 4 - 1) mod 4 = (0::int) \<and>
   length (ramp 40) = 40 \<and>
   output_length (process_in_chunks id (ramp 40) 13 4) = Some (Inr 37) \<and>
   length (ramp 31) = 31 \<and>
   output_length (process_in_chunks id (ramp 31) 13 4) = Some (Inr 35)"
  by code_simp

text \<open>
  Claim C3, amended. With an identity codec, \<open>1 \<le> overlap\<close>, \<open>2 * overlap \<le> chunk_size\<close>, the
  precondition and an input of \<open>T \<ge> 1\<close> frames, \<open>process_in_chunks\<close> returns an output of
  \<open>T\<close> frames when \<open>T \<le> chunk_size\<close>. Otherwise, with \<open>k = (T - 1) div chunk_size\<close> the index of
  the final window, the output has \<open>T + overlap\<close> frames when
  \<open>k * chunk_size + overlap < T\<close> (the final window is appended whole after its first
  \<open>overlap\<close> frames were blended into the previous entry), and
  \<open>2 * T - k * chunk_size - overlap\<close> frames when not.
\<close>

theorem identity_output_length:
  assumes "1 \<le> ov" and "2 * ov \<le> c" and "(int c + int ov - 1) mod 4 = 0"
    and "video_data \<noteq> []"
  shows "output_length (process_in_chunks id video_data (int c) (int ov)) =
           Some (Inr (if length video_data \<le> c then length video_data
                      else if (length video_data - 1) div c * c + ov < length video_data
                      then length video_data + ov
                      else 2 * length video_data - (length video_data - 1) div c * c - ov))"
proof -
  have "\<And>x :: tensor. length (id x) = length x" by simp
  from process_in_chunks_regular [of id, OF this assms]
  show ?thesis
    by (auto simp: output_length_def stitched_length_def Let_def)
qed

theorem identity_output_length_witness:
  "(1::nat) \<le> 4 \<and> 2 * 4 \<le> (13::nat) \<and> (int 13 + int 4 - 1) mod 4 = 0 \<and> ramp 40 \<noteq> [] \<and>
   output_length (process_in_chunks id (ramp 40) (int 13) (int 4)) = Some (Inr 37) \<and>
   output_length (process_in_chunks id (ramp 9) (int 13) (int 4)) = Some (Inr 9)"
  using identity_output_length [of 4 13 "ramp 40"] identity_output_length [of 4 13 "ramp 9"]
  by (simp add: ramp_length) (simp add: ramp_def)

section \<open>Forty frames\<close>

text \<open>
  Claim C6 says that 40 frames with \<open>chunk_size = 13\<close> and \<open>overlap = 4\<close> are processed in 3
  windows with 2 blends. The cursor advances by 13 from 0 while it is below 40, through
  0, 13, 26 and 39: there are 4 windows and 3 blends.
\<close>

theorem forty_frames_counterexample:
  "(13 + 4 - 1) mod 4 = (0::int) \<and> length (ramp 40) = 40 \<and>
   window_count (process_in_chunks id (ramp 40) 13 4) = Some 4 \<and>
   seam_count (process_in_chunks id (ramp 40) 13 4) = Some 3"
  by code_simp

text \<open>
  Claim C6, amended. On every input of 40 frames, with \<open>chunk_size = 13\<close>, \<open>overlap = 4\<close> and
  a codec that keeps the number of frames of each chunk, \<open>process_in_chunks\<close> calls the
  codec exactly 4 times and blends exactly 3 times.
\<close>

theorem forty_frames_windows:
  assumes "length video_data = 40" and "\<And>x. length (codec x) = length x"
  shows "window_count (process_in_chunks codec video_data 13 4) = Some 4 \<and>
         seam_count (process_in_chunks codec video_data 13 4) = Some 3"
proof -
  from assms(1) have ne: "video_data \<noteq> []" by auto
  have "(int 13 + int 4 - 1) mod 4 = 0" by simp
  from process_in_chunks_regular [of codec 4 13 video_data, OF assms(2) _ _ this ne] assms(1)
  show ?thesis
    by (auto simp: window_count_def seam_count_def)
qed

theorem forty_frames_windows_witness:
  "length (ramp 40) = 40 \<and> (\<forall>x :: tensor. length (id x) = length x) \<and>
   window_count (process_in_chunks id (ramp 40) 13 4) = Some 4 \<and>
   seam_count (process_in_chunks id (ramp 40) 13 4) = Some 3"
  using forty_frames_windows [of "ramp 40" id]
  by (simp add: ramp_length)

section \<open>Seams\<close>

lemma seams_written_append:
  "seams_written ss out \<Longrightarrow> seams_written ss (out @ rest)"
  by (auto simp: seams_written_def)

lemma seams_written_snoc:
  assumes "seams_written ss out"
  shows "seams_written (ss @ [(length out + length kept, bl)]) (out @ kept @ bl)"
  using assms by (auto simp: seams_written_def)

lemma seams_inv_step:
  assumes inv: "seams_inv st" and step: "chunk_step codec vd c ov st = Inr st'"
  shows "seams_inv st'"
proof (cases "output_chunks st = []")
  case True
  with inv have "seams st = []" by (simp add: seams_inv_def)
  with True step show ?thesis
    by (auto simp: chunk_step_def Let_def seams_inv_def seams_written_def)
next
  case False
  define buf where "buf = output_chunks st"
  define before where "before = concat (butlast buf)"
  from inv have written: "seams_written (seams st) before"
    and sorted: "sorted_wrt (\<lambda>a b. fst a + length (snd a) \<le> fst b) (seams st)"
    by (simp_all add: seams_inv_def before_def buf_def)
  from step False obtain kept bl new where
    buf': "output_chunks st' = (butlast buf @ [kept @ bl]) @ [new]"
    and seams': "seams st' = seams st @ [(length before + length kept, bl)]"
    by (auto simp: chunk_step_def Let_def before_def buf_def split: sum.splits)
  have before': "concat (butlast (output_chunks st')) = before @ kept @ bl"
    unfolding buf' butlast_snoc by (simp add: before_def)
  have w: "seams_written (seams st') (concat (butlast (output_chunks st')))"
    unfolding before' seams' by (rule seams_written_snoc [OF written])
  have "\<forall>sm \<in> set (seams st). fst sm + length (snd sm) \<le> length before + length kept"
    using written by (auto simp: seams_written_def)
  with sorted have s: "sorted_wrt (\<lambda>a b. fst a + length (snd a) \<le> fst b) (seams st')"
    unfolding seams' by (simp add: sorted_wrt_append)
  from w s buf' show ?thesis by (simp add: seams_inv_def)
qed

lemma seams_inv_loop:
  assumes "chunk_loop codec vd c ov \<lparr>start = 0, output_chunks = [], calls = [], seams = []\<rparr>
             = Some y"
  shows "case y of Inl (x, st) \<Rightarrow> sorted_wrt (\<lambda>a b. fst a + length (snd a) \<le> fst b) (seams st)
         | Inr st \<Rightarrow> seams_inv st"
proof (rule chunk_loop_rule [OF assms, where I = seams_inv])
  show "seams_inv \<lparr>start = 0, output_chunks = [], calls = [], seams = []\<rparr>"
    by (simp add: seams_inv_def seams_written_def)
next
  fix s s'
  assume "seams_inv s" "chunk_step codec vd c ov s = Inr s'"
  then show "seams_inv s'" by (rule seams_inv_step)
next
  fix s x
  assume inv: "seams_inv s" and "chunk_step codec vd c ov s = Inl x"
  then have "seams (snd x) = seams s"
    by (auto simp: chunk_step_def Let_def split: sum.splits if_splits)
  with inv show "case Inl x of Inl (x, st) \<Rightarrow> sorted_wrt (\<lambda>a b. fst a + length (snd a) \<le> fst b) (seams st)
         | Inr st \<Rightarrow> seams_inv st"
    by (cases x) (simp add: seams_inv_def)
next
  fix s
  assume "seams_inv s"
  then show "case Inr s of Inl (x, st) \<Rightarrow> sorted_wrt (\<lambda>a b. fst a + length (snd a) \<le> fst b) (seams st)
         | Inr st \<Rightarrow> seams_inv st" by simp
qed

lemma sorted_seams_disjoint:
  assumes "sorted_wrt (\<lambda>a b. fst a + length (snd a) \<le> fst b) ss"
    and "i < length ss" "j < length ss" "i \<noteq> j"
  shows "seam_range (ss ! i) \<inter> seam_range (ss ! j) = {}"
proof -
  have "seam_range (ss ! a) \<inter> seam_range (ss ! b) = {}" if "a < b" "b < length ss" for a b
  proof -
    from assms(1) that have "fst (ss ! a) + length (snd (ss ! a)) \<le> fst (ss ! b)"
      by (simp add: sorted_wrt_iff_nth_less)
    then show ?thesis by (auto simp: seam_range_def)
  qed
  from this [of i j] this [of j i] assms(2-4) show ?thesis
    by (cases "i < j") (auto simp: Int_commute)
qed

text \<open>
  Claim C8. For every input, codec, \<open>chunk_size\<close> and \<open>overlap\<close>, the ranges of output
  positions written by two different blends of a run are disjoint: no position of the
  output is part of more than one blend. Every seam lies inside the output, which holds
  the blended frames there, and with \<open>1 \<le> chunk_size\<close> there is such a run.
\<close>

theorem blend_seams_disjoint:
  "(1 \<le> chunk_size \<longrightarrow> (\<exists>r. process_in_chunks codec video_data chunk_size overlap = Some r)) \<and>
   (\<forall>r. process_in_chunks codec video_data chunk_size overlap = Some r \<longrightarrow>
      (\<forall>i < length (blend_seams r). \<forall>j < length (blend_seams r). i \<noteq> j \<longrightarrow>
          seam_range (blend_seams r ! i) \<inter> seam_range (blend_seams r ! j) = {}) \<and>
      (\<forall>out. result r = Inr out \<longrightarrow>
          (\<forall>sm \<in> set (blend_seams r). seam_range sm \<subseteq> {..< length out} \<and>
              take (length (snd sm)) (drop (fst sm) out) = snd sm)))"
proof (intro conjI impI allI ballI)
  assume "1 \<le> chunk_size"
  from chunk_loop_returns [OF this] obtain y where
    "chunk_loop codec video_data chunk_size overlap
       \<lparr>start = 0, output_chunks = [], calls = [], seams = []\<rparr> = Some y" by blast
  then show "\<exists>r. process_in_chunks codec video_data chunk_size overlap = Some r"
    by (simp add: process_in_chunks_def split: sum.splits prod.splits)
next
  fix r i j
  assume r: "process_in_chunks codec video_data chunk_size overlap = Some r"
    and ij: "i < length (blend_seams r)" "j < length (blend_seams r)" "i \<noteq> j"
  from r have "sorted_wrt (\<lambda>a b. fst a + length (snd a) \<le> fst b) (blend_seams r)"
  proof (cases rule: process_in_chunks_cases)
    case precondition
    then show ?thesis by simp
  next
    case (raised x st)
    from seams_inv_loop [OF raised(2)] raised(3) show ?thesis by simp
  next
    case (returned st)
    from seams_inv_loop [OF returned(2)] returned(3) show ?thesis
      by (simp add: seams_inv_def)
  qed
  from sorted_seams_disjoint [OF this ij]
  show "seam_range (blend_seams r ! i) \<inter> seam_range (blend_seams r ! j) = {}" .
next
  fix r out sm
  assume r: "process_in_chunks codec video_data chunk_size overlap = Some r"
    and out: "result r = Inr out" and sm: "sm \<in> set (blend_seams r)"
  from r have "seams_written (blend_seams r) out"
  proof (cases rule: process_in_chunks_cases)
    case precondition
    with out show ?thesis by simp
  next
    case (raised x st)
    with out show ?thesis by simp
  next
    case (returned st)
    with out have buf: "output_chunks st \<noteq> []" and cat: "out = concat (output_chunks st)"
      by (simp_all add: torch_cat_def split: if_splits)
    from seams_inv_loop [OF returned(2)] have "seams_inv st" by simp
    then have "seams_written (seams st) (concat (butlast (output_chunks st)))"
      by (simp add: seams_inv_def)
    then have w: "seams_written (seams st)
                    (concat (butlast (output_chunks st)) @ last (output_chunks st))"
      by (rule seams_written_append)
    from buf have "concat (butlast (output_chunks st)) @ last (output_chunks st) = out"
      unfolding cat by (rule concat_butlast_snoc)
    with w returned(3) show ?thesis by simp
  qed
  with sm have "fst sm + length (snd sm) \<le> length out"
    and "take (length (snd sm)) (drop (fst sm) out) = snd sm"
    by (simp_all add: seams_written_def)
  then show "seam_range sm \<subseteq> {..< length out}"
    and "take (length (snd sm)) (drop (fst sm) out) = snd sm"
    by (auto simp: seam_range_def)
qed

theorem blend_seams_disjoint_witness:
  "(1::int) \<le> 5 \<and>
   process_in_chunks id (ramp 12) 5 4 \<noteq> None \<and>
   seam_count (process_in_chunks id (ramp 12) 5 4) = Some 2 \<and>
   seam_range (blend_seams (the (process_in_chunks id (ramp 12) 5 4)) ! 0) \<inter>
   seam_range (blend_seams (the (process_in_chunks id (ramp 12) 5 4)) ! 1) = {}"
proof -
  have n: "seam_count (process_in_chunks id (ramp 12) 5 4) = Some 2"
    by code_simp
  then obtain r where r: "process_in_chunks id (ramp 12) 5 4 = Some r"
    and len: "length (blend_seams r) = 2"
    by (auto simp: seam_count_def)
  from blend_seams_disjoint [of 5 id "ramp 12" 4] r len
  have "seam_range (blend_seams r ! 0) \<inter> seam_range (blend_seams r ! 1) = {}"
    by auto
  with n r show ?thesis by simp
qed

section \<open>Rounding to double precision\<close>

lemma pow2_powi: "pow2 k = 2 powi k"
  by (simp add: pow2_def power_int_def inverse_eq_divide power_one_over)

lemma pow2_pos: "0 < pow2 k"
  by (simp add: pow2_powi)

lemma pow2_mono: "a \<le> b \<Longrightarrow> pow2 a \<le> pow2 b"
  by (simp add: pow2_powi power_int_increasing)

lemma pow2_half: "pow2 (k - 1) = pow2 k / 2"
  by (simp add: pow2_powi power_int_diff)

lemma pow2_diff: "pow2 (a - int n) = pow2 a / 2 ^ n"
  by (simp add: pow2_powi power_int_diff)

text \<open>The exponent found for a non-zero number is not too large.\<close>

lemma float_exponent_le:
  assumes "x \<noteq> 0"
  shows "pow2 (float_exponent x) \<le> \<bar>x\<bar>"
proof -
  obtain p q where pq: "quotient_of \<bar>x\<bar> = (p, q)" by (cases "quotient_of \<bar>x\<bar>")
  then have q: "0 < q" and x: "\<bar>x\<bar> = of_int p / of_int q"
    by (simp_all add: quotient_of_denom_pos quotient_of_div)
  from assms have "0 < \<bar>x\<bar>" by simp
  then have "(0::rat) < of_int p / of_int q" by (simp only: x)
  with q have p: "0 < p" by (simp add: zero_less_divide_iff)
  define d where "d = bitlen p - bitlen q"
  show ?thesis
  proof (cases "pow2 d \<le> \<bar>x\<bar>")
    case True
    then show ?thesis by (simp add: float_exponent_def pq d_def)
  next
    case False
    from bitlen_bounds [OF p] have lo: "2 ^ nat (bitlen p - 1) \<le> p" by simp
    from bitlen_bounds [OF q] have hi: "q < 2 ^ nat (bitlen q)" by simp
    from p have bp: "1 \<le> bitlen p" by (simp add: bitlen_alt_def)
    have bq: "0 \<le> bitlen q" by (rule bitlen_nonneg)
    have "pow2 (d - 1) = pow2 (bitlen p - 1) / pow2 (bitlen q)"
      by (simp add: d_def pow2_powi power_int_diff)
    also have "pow2 (bitlen p - 1) = 2 ^ nat (bitlen p - 1)"
      using bp by (simp add: pow2_def)
    also have "pow2 (bitlen q) = 2 ^ nat (bitlen q)"
      using bq by (simp add: pow2_def)
    also have "(2::rat) ^ nat (bitlen p - 1) / 2 ^ nat (bitlen q) \<le> of_int p / of_int q"
    proof (rule frac_le)
      show "(0::rat) \<le> of_int p" using p by simp
      show "(0::rat) < of_int q" using q by simp
      from lo have "(of_int (2 ^ nat (bitlen p - 1)) :: rat) \<le> of_int p"
        by (simp only: of_int_le_iff)
      then show "(2::rat) ^ nat (bitlen p - 1) \<le> of_int p" by simp
      from hi have "(of_int q :: rat) \<le> of_int (2 ^ nat (bitlen q))"
        by (simp only: of_int_le_iff less_imp_le)
      then show "(of_int q :: rat) \<le> 2 ^ nat (bitlen q)" by simp
    qed
    finally have "pow2 (d - 1) \<le> \<bar>x\<bar>" by (simp add: x)
    with False show ?thesis by (simp add: float_exponent_def pq d_def)
  qed
qed

lemma round_half_even_error: "\<bar>of_int (round_half_even x) - x\<bar> \<le> 1 / 2"
proof -
  have "of_int \<lfloor>x\<rfloor> \<le> x" "x < of_int \<lfloor>x\<rfloor> + 1" by linarith+
  then show ?thesis
    by (auto simp: round_half_even_def Let_def abs_le_iff)
qed

lemma round_half_even_of_int: "round_half_even (of_int n) = n"
  by (simp add: round_half_even_def)

text \<open>The relative error of rounding is at most \<open>2 ^ - 53\<close>.\<close>

lemma fl_error: "\<bar>fl x - x\<bar> \<le> \<bar>x\<bar> / 2 ^ 53"
proof (cases "x = 0")
  case True
  then show ?thesis by (simp add: fl_def)
next
  case False
  define ulp where "ulp = pow2 (float_exponent x - 52)"
  have ulp: "0 < ulp" by (simp add: ulp_def pow2_pos)
  have "fl x - x = (of_int (round_half_even (x / ulp)) - x / ulp) * ulp"
    using False ulp by (simp add: fl_def Let_def ulp_def [symmetric] algebra_simps)
  then have "\<bar>fl x - x\<bar> = \<bar>of_int (round_half_even (x / ulp)) - x / ulp\<bar> * ulp"
    using ulp by (simp add: abs_mult)
  also have "\<dots> \<le> 1 / 2 * ulp"
    using ulp round_half_even_error [of "x / ulp"] by (intro mult_right_mono) simp_all
  also have "1 / 2 * ulp = pow2 (float_exponent x) / 2 ^ 53"
    using pow2_diff [of "float_exponent x" 53] pow2_diff [of "float_exponent x" 52]
    by (simp add: ulp_def)
  also have "\<dots> \<le> \<bar>x\<bar> / 2 ^ 53"
    using float_exponent_le [OF False] by (simp add: divide_right_mono)
  finally show ?thesis .
qed




lemma fl_eq_0D: "fl x = 0 \<Longrightarrow> x = 0"
proof -
  assume "fl x = 0"
  with fl_error [of x] have "\<bar>x\<bar> \<le> \<bar>x\<bar> / 2 ^ 53" by simp
  then have "\<bar>x\<bar> * 2 ^ 53 \<le> \<bar>x\<bar>" by (simp add: field_simps)
  then show ?thesis by (cases "x = 0") auto
qed

text \<open>Integers below \<open>2 ^ 53\<close> are doubles.\<close>

lemma fl_of_nat:
  assumes "n < 2 ^ 53"
  shows "fl (of_nat n) = of_nat n"
proof (cases "n = 0")
  case True
  then show ?thesis by (simp add: fl_def)
next
  case False
  define x :: rat where "x = of_nat n"
  define k where "k = float_exponent x"
  from False have x0: "x \<noteq> 0" and xpos: "0 < x" by (simp_all add: x_def)
  from assms have "x < 2 ^ 53"
    unfolding x_def by (metis of_nat_less_iff of_nat_numeral of_nat_power)
  with float_exponent_le [OF x0] xpos have "pow2 k < pow2 53"
    by (simp add: k_def pow2_def)
  then have "k < 53"
    using pow2_mono [of 53 k] by (cases "k < 53") auto
  then have k52: "0 \<le> 52 - k" by simp
  have ulp: "pow2 (k - 52) = 1 / 2 ^ nat (52 - k)"
    using k52 by (simp add: pow2_powi power_int_def inverse_eq_divide power_one_over nat_diff_distrib)
  have "x / pow2 (k - 52) = of_int (int n * 2 ^ nat (52 - k))"
    by (simp add: ulp x_def)
  then have "round_half_even (x / pow2 (k - 52)) = int n * 2 ^ nat (52 - k)"
    by (simp only: round_half_even_of_int)
  then have "fl x = of_int (int n * 2 ^ nat (52 - k)) * (1 / 2 ^ nat (52 - k))"
    using x0 by (simp add: fl_def Let_def k_def [symmetric] ulp)
  then show ?thesis by (simp add: x_def)
qed

lemma fl_of_int:
  assumes "0 \<le> n" "n < 2 ^ 53"
  shows "fl (of_int n) = of_int n"
proof -
  from assms have "nat n < 2 ^ 53" by (simp add: nat_less_iff)
  from fl_of_nat [OF this] assms(1) show ?thesis by simp
qed



section \<open>\<open>linspace\<close> between 0 and a bound\<close>




section \<open>The frame sampler\<close>

lemma load_video_eq: "load_video = read_video"
  by (rule ext)+ (simp add: load_video_def read_video_def)




lemma rounding_15_22:
  "fl (15 / 22) = 6141272219141585 / 9007199254740992 \<and>
   fl (fl (15 / 22) * fl 22) = 8444249301319679 / 562949953421312 \<and>
   py_int (8444249301319679 / 562949953421312) = 14 \<and>
   \<lfloor>(15::rat) / (22 * 1) * 22\<rfloor> = 15"
  by code_simp

lemma read_video_15_22:
  "read_video 15 22 1 =
     Inr \<lparr>sample_s = 0, sample_e = 15, sample_num_frames = 14, diagnostic = True,
          frame_id_list = [0, 1, 2, 3, 4, 5, 6, 7, 8, 9, 10, 11, 12, 14]\<rparr>"
  by code_simp



text \<open>
  Claim C4 says that a video of no more frames than the requested span is sampled over
  its whole range with \<open>floor(total_frames / (num_frames * sample_rate) * num_frames)\<close>
  frames. The source computes this number with Python floats. For
  \<open>total_frames = 15\<close>, \<open>num_frames = 22\<close>, \<open>sample_rate = 1\<close> the quotient \<open>15 / 22\<close> is rounded
  down to a double, its product with 22 is the double just below 15, and \<open>int\<close> truncates
  it to 14, where the floor of the exact product is 15: the sampler asks for 14 frames.
\<close>

theorem short_video_count_rounds_down:
  "read_video 15 22 1 =
     Inr \<lparr>sample_s = 0, sample_e = 15, sample_num_frames = 14, diagnostic = True,
          frame_id_list = [0, 1, 2, 3, 4, 5, 6, 7, 8, 9, 10, 11, 12, 14]\<rparr> \<and>
   load_video 15 22 1 =
     Inr \<lparr>sample_s = 0, sample_e = 15, sample_num_frames = 14, diagnostic = True,
          frame_id_list = [0, 1, 2, 3, 4, 5, 6, 7, 8, 9, 10, 11, 12, 14]\<rparr> \<and>
   fl (15 / 22) = 6141272219141585 / 9007199254740992 \<and>
   fl (fl (15 / 22) * fl 22) = 8444249301319679 / 562949953421312 \<and>
   py_int (8444249301319679 / 562949953421312) = 14 \<and>
   \<lfloor>(15::rat) / (22 * 1) * 22\<rfloor> = 15"
  using read_video_15_22 rounding_15_22 unfolding load_video_eq by blast




section \<open>The shape normalizer\<close>

text \<open>
  Claim C5. For a video of at least one frame, \<open>_format_video_shape\<close> with the factors 4
  and 8 returns the prefix of the video (every value stays at its index) whose time length
  is \<open>time - 1 - (time - 1) mod 4\<close> when \<open>(time - 1) mod 4 \<noteq> 0\<close> and \<open>time\<close> otherwise, and
  whose height and width are the largest multiples of 8 that do not exceed the original
  ones; no dimension grows.
\<close>

theorem format_video_shape_truncates:
  assumes "shape video = (c, t, h, w)" and "1 \<le> t"
  shows "\<exists>v. format_video_shape video 4 8 = Inr v \<and> val v = val video \<and>
           shape v = (c, (if (t - 1) mod 4 \<noteq> 0 then t - 1 - (t - 1) mod 4 else t),
                      8 * (h div 8), 8 * (w div 8)) \<and>
           (if (t - 1) mod 4 \<noteq> 0 then t - 1 - (t - 1) mod 4 else t) \<le> t \<and>
           8 * (h div 8) \<le> h \<and> h < 8 * (h div 8) + 8 \<and>
           8 * (w div 8) \<le> w \<and> w < 8 * (w div 8) + 8"
proof -
  define nt where "nt = (if (t - 1) mod 4 \<noteq> 0 then t - 1 - (t - 1) mod 4 else t)"
  have tm: "(int t - 1) mod 4 = int ((t - 1) mod 4)"
    using assms(2) by (simp add: zmod_int of_nat_diff)
  have hm: "int h mod 8 = int (h mod 8)" for h
    by (simp add: zmod_int)
  have "(t - 1) mod 4 \<le> t - 1" by (rule mod_less_eq_dividend)
  with assms(2) have ti: "int t - 1 - int ((t - 1) mod 4) = int (t - 1 - (t - 1) mod 4)"
    by linarith
  have hi: "int h - int (h mod 8) = int (8 * (h div 8))" for h
    using minus_mod_eq_mult_div [of h 8] mod_less_eq_dividend [of h 8] by linarith
  have h0: "h mod 8 = 0 \<Longrightarrow> 8 * (h div 8) = h" for h :: nat
    by auto
  have nt_le: "nt \<le> t" by (simp add: nt_def)
  have "(if (int t - 1) mod 4 \<noteq> 0 then int t - 1 - (int t - 1) mod 4 else int t) = int nt"
  proof (cases "(t - 1) mod 4 = 0")
    case True
    then show ?thesis by (simp add: tm nt_def)
  next
    case False
    then have "(int t - 1) mod 4 \<noteq> 0" by (simp add: tm)
    then have "(if (int t - 1) mod 4 \<noteq> 0 then int t - 1 - (int t - 1) mod 4 else int t)
                 = int t - 1 - (int t - 1) mod 4" by (simp only: if_True not_False_eq_True)
    also have "\<dots> = int (t - 1 - (t - 1) mod 4)" by (simp only: tm ti)
    also have "\<dots> = int nt" using False by (simp add: nt_def)
    finally show ?thesis .
  qed
  with nt_le have new_time:
    "slice_bound t (if (int t - 1) mod 4 \<noteq> 0 then int t - 1 - (int t - 1) mod 4
                    else int t) = nt"
    by (simp only: slice_bound_int min_absorb1)
  have new_dim: "slice_bound h (if int h mod 8 \<noteq> 0 then int h - int h mod 8 else int h)
                   = 8 * (h div 8)" for h
  proof (cases "h mod 8 = 0")
    case True
    then show ?thesis using h0 [of h] by (simp add: hm slice_bound_int)
  next
    case False
    then show ?thesis by (simp add: hm hi slice_bound_int del: of_nat_mult)
  qed
  have run: "format_video_shape video 4 8 =
               Inr (video\<lparr>shape := (c, nt, 8 * (h div 8), 8 * (w div 8))\<rparr>)"
    unfolding format_video_shape_def assms(1) prod.case Let_def new_time new_dim
    by simp
  have "8 * (h div 8) \<le> h" "h < 8 * (h div 8) + 8"
    "8 * (w div 8) \<le> w" "w < 8 * (w div 8) + 8" by presburger+
  with nt_le show ?thesis unfolding run nt_def [symmetric] by simp
qed

theorem format_video_shape_truncates_witness:
  "shape \<lparr>shape = (3, 18, 130, 64), val = (\<lambda>c t h w. 0::real)\<rparr> = (3, 18, 130, 64) \<and> (1::nat) \<le> 18 \<and>
   (\<exists>v. format_video_shape \<lparr>shape = (3, 18, 130, 64), val = (\<lambda>c t h w. 0::real)\<rparr> 4 8 = Inr v \<and>
        shape v = (3, 16, 128, 64))"
  using format_video_shape_truncates
          [of "\<lparr>shape = (3, 18, 130, 64), val = (\<lambda>c t h w. 0::real)\<rparr>" 3 18 130 64]
  by auto

section \<open>The video emitter\<close>



lemma custom_to_video_shape:
  "shape x = (c, t, h, w) \<Longrightarrow> shape (custom_to_video x) = (t, h, w, c)"
  by (simp add: custom_to_video_def Let_def)


end
